theory Spec2Isabelle
  imports Main
begin

section \<open>Data model\<close>

text \<open>
  Metadata values of a retrieved document: \<^verbatim>\<open>None\<close>, strings, integers and booleans. Any
  other value (a float, say) is carried as \<open>PyOther\<close> with the text \<^verbatim>\<open>str()\<close> gives for it,
  which is all the code ever asks of it.
\<close>

datatype pyval = PyNone | PyStr string | PyInt int | PyBool bool | PyOther string

text \<open>
  \<^verbatim>\<open>langchain_core.documents.Document\<close>: \<^verbatim>\<open>page_content\<close> and \<^verbatim>\<open>metadata\<close>. The code guards
  every access with \<^verbatim>\<open>doc.metadata or {}\<close>, so the field may be \<^verbatim>\<open>None\<close>.
\<close>

record document =
  page_content :: string
  metadata :: "(string \<rightharpoonup> pyval) option"

subsection \<open>Rendering values as Python's \<^verbatim>\<open>str()\<close> does\<close>

definition digit_char :: "nat \<Rightarrow> char" where
  "digit_char d = ''0123456789'' ! d"

function string_of_nat :: "nat \<Rightarrow> string" where
  "string_of_nat n =
     (if n < 10 then [digit_char n] else string_of_nat (n div 10) @ [digit_char (n mod 10)])"
  by pat_completeness auto
termination
  by (relation "measure id") auto

fun py_str :: "pyval \<Rightarrow> string" where
  "py_str PyNone = ''None''"
| "py_str (PyStr s) = s"
| "py_str (PyInt i) = (if i < 0 then ''-'' @ string_of_nat (nat (- i)) else string_of_nat (nat i))"
| "py_str (PyBool b) = (if b then ''True'' else ''False'')"
| "py_str (PyOther s) = s"

text \<open>\<^verbatim>\<open>sep.join(parts)\<close>.\<close>

fun join_str :: "string \<Rightarrow> string list \<Rightarrow> string" where
  "join_str sep [] = []"
| "join_str sep [x] = x"
| "join_str sep (x # y # ys) = x @ sep @ join_str sep (y # ys)"

section \<open>Context Formatter: \<^verbatim>\<open>_format_context\<close> (rag.py)\<close>

text \<open>\<^verbatim>\<open>doc.metadata or {}\<close>: \<^verbatim>\<open>None\<close> and the empty dict both give the empty dict.\<close>

definition metadata_or_empty :: "document \<Rightarrow> (string \<rightharpoonup> pyval)" where
  "metadata_or_empty doc = (case metadata doc of None \<Rightarrow> Map.empty | Some m \<Rightarrow> m)"

text \<open>\<^verbatim>\<open>(doc.metadata or {}).get("source", "unknown")\<close>.\<close>

definition source_of :: "document \<Rightarrow> pyval" where
  "source_of doc =
     (case metadata_or_empty doc ''source'' of None \<Rightarrow> PyStr ''unknown'' | Some v \<Rightarrow> v)"

text \<open>The f-string \<^verbatim>\<open>f"[{idx}] Source: {source}\n{doc.page_content}"\<close>.\<close>

definition context_chunk :: "nat \<Rightarrow> document \<Rightarrow> string" where
  "context_chunk idx doc =
     ''['' @ string_of_nat idx @ ''] Source: '' @ py_str (source_of doc) @ [CHR 0x0A]
       @ page_content doc"

text \<open>
  The \<^verbatim>\<open>for idx, doc in enumerate(docs, start=1)\<close> loop, with the running index and the
  \<^verbatim>\<open>chunks\<close> list it appends to.
\<close>

fun format_context_loop :: "nat \<Rightarrow> document list \<Rightarrow> string list \<Rightarrow> string list" where
  "format_context_loop idx [] chunks = chunks"
| "format_context_loop idx (doc # rest) chunks =
     format_context_loop (Suc idx) rest (chunks @ [context_chunk idx doc])"

definition format_context :: "document list \<Rightarrow> string" where
  "format_context ds =
     (if ds = [] then ''''
      else join_str [CHR 0x0A, CHR 0x0A] (format_context_loop 1 ds []))"

section \<open>Generator and graph nodes (rag.py, inside \<^verbatim>\<open>get_graph\<close>)\<close>

datatype message = SystemMessage string | HumanMessage string

definition SYSTEM_PROMPT :: string where
  "SYSTEM_PROMPT =
     ''You are a helpful RAG assistant. Use the provided context to answer the question. ''
     @ ''If the context does not contain the answer, say you don'' @ [CHR 0x27]
     @ ''t know and suggest what to ''
     @ ''ingest to answer better.''"

text \<open>
  \<^verbatim>\<open>RAGState\<close> is a TypedDict that the graph fills in as it runs; a key that is not yet there is
  \<open>None\<close>. A node returns a partial dict of the same shape, merged key by key.
\<close>

record rag_state =
  question :: "string option"
  docs :: "document list option"
  answer :: "string option"

definition apply_update :: "rag_state \<Rightarrow> rag_state \<Rightarrow> rag_state" where
  "apply_update st upd =
     \<lparr>question = (case question upd of None \<Rightarrow> question st | Some q \<Rightarrow> Some q),
      docs = (case docs upd of None \<Rightarrow> docs st | Some ds \<Rightarrow> Some ds),
      answer = (case answer upd of None \<Rightarrow> answer st | Some a \<Rightarrow> Some a)\<rparr>"

text \<open>Exceptions: a missing dict key, anything a collaborator raises, the graph's step limit.\<close>

datatype error = KeyError string | Raised string | GraphRecursionError

text \<open>The dict passed to the stream writer: \<^verbatim>\<open>{"type": ..., "content": ...}\<close>.\<close>

datatype stream_event = StreamEvent (ev_type: string) (ev_content: string)

text \<open>
  Everything a request does to the outside world, in the order it happens: calls of the
  retriever (collection, question), calls of the model (the messages), and calls of the
  stream writer. Where the writer delivers an event is the library's business; the sink of
  the model is the sequence of these calls.
\<close>

datatype effect =
    RetrieverInvoke string string
  | LLMStream "message list"
  | SinkWrite stream_event

text \<open>
  The collaborators imported from \<^verbatim>\<open>chroma_client\<close>, which is not part of the sources: the
  default collection name, whether building the vector store or the model raises, what the
  retriever of a collection returns for a question, and what the model streams for a prompt
  (the chunk contents in order, then a normal end or an exception).
\<close>

record env =
  default_collection :: string
  build_raises :: "string \<Rightarrow> error option"
  retriever_invoke :: "string \<Rightarrow> string \<Rightarrow> error + document list"
  llm_astream :: "message list \<Rightarrow> string list \<times> error option"

type_synonym node_fn = "rag_state \<Rightarrow> effect list \<Rightarrow> (error + rag_state) \<times> effect list"

definition retrieve :: "env \<Rightarrow> string \<Rightarrow> node_fn" where
  "retrieve e collection_name st eff =
     (case question st of
        None \<Rightarrow> (Inl (KeyError ''question''), eff)
      | Some q \<Rightarrow>
          (case retriever_invoke e collection_name q of
             Inl err \<Rightarrow> (Inl err, eff @ [RetrieverInvoke collection_name q])
           | Inr ds \<Rightarrow>
               (Inr \<lparr>question = None, docs = Some ds, answer = None\<rparr>,
                eff @ [RetrieverInvoke collection_name q])))"

definition user_prompt :: "string \<Rightarrow> string \<Rightarrow> string" where
  "user_prompt q context =
     ''Question: '' @ q @ [CHR 0x0A, CHR 0x0A] @ ''Context:'' @ [CHR 0x0A]
       @ (if context \<noteq> [] then context else ''[no context retrieved]'')"

text \<open>
  The \<^verbatim>\<open>async for chunk in llm.astream(messages)\<close> loop: the chunks still to come, how the
  stream ends, the \<^verbatim>\<open>parts\<close> list and the effects so far.
\<close>

fun generate_loop ::
  "string list \<Rightarrow> error option \<Rightarrow> string list \<Rightarrow> effect list
     \<Rightarrow> (error + string list) \<times> effect list" where
  "generate_loop [] None parts eff = (Inr parts, eff)"
| "generate_loop [] (Some err) parts eff = (Inl err, eff)"
| "generate_loop (content # rest) fin parts eff =
     (if content \<noteq> []
      then generate_loop rest fin (parts @ [content])
             (eff @ [SinkWrite (StreamEvent ''token'' content)])
      else generate_loop rest fin parts eff)"

definition generate :: "env \<Rightarrow> node_fn" where
  "generate e st eff =
     (let context = format_context (case docs st of None \<Rightarrow> [] | Some ds \<Rightarrow> ds) in
      case question st of
        None \<Rightarrow> (Inl (KeyError ''question''), eff)
      | Some q \<Rightarrow>
          (let messages = [SystemMessage SYSTEM_PROMPT, HumanMessage (user_prompt q context)];
               (chunks, fin) = llm_astream e messages
           in case generate_loop chunks fin [] (eff @ [LLMStream messages]) of
                (Inl err, eff') \<Rightarrow> (Inl err, eff')
              | (Inr parts, eff') \<Rightarrow>
                  (Inr \<lparr>question = None, docs = None, answer = Some (join_str [] parts)\<rparr>,
                   eff')))"

subsection \<open>The compiled graph\<close>

text \<open>
  \<^verbatim>\<open>StateGraph\<close>: named nodes and directed edges, as \<^verbatim>\<open>add_node\<close> and \<^verbatim>\<open>add_edge\<close> record them.
  \<^verbatim>\<open>START\<close> and \<^verbatim>\<open>END\<close> are the library's reserved node names.
\<close>

record state_graph =
  nodes :: "(string \<times> node_fn) list"
  edges :: "(string \<times> string) list"

definition START :: string where "START = ''__start__''"
definition END :: string where "END = ''__end__''"

definition add_node :: "string \<Rightarrow> node_fn \<Rightarrow> state_graph \<Rightarrow> state_graph" where
  "add_node name f g = g\<lparr>nodes := nodes g @ [(name, f)]\<rparr>"

definition add_edge :: "string \<Rightarrow> string \<Rightarrow> state_graph \<Rightarrow> state_graph" where
  "add_edge a b g = g\<lparr>edges := edges g @ [(a, b)]\<rparr>"

text \<open>Lines 65 to 72 of rag.py, for the retriever bound to \<open>collection_name\<close>.\<close>

definition rag_graph :: "env \<Rightarrow> string \<Rightarrow> state_graph" where
  "rag_graph e collection_name =
     (add_edge ''generate'' END
       (add_edge ''retrieve'' ''generate''
         (add_edge START ''retrieve''
           (add_node ''generate'' (generate e)
             (add_node ''retrieve'' (retrieve e collection_name)
               \<lparr>nodes = [], edges = []\<rparr>)))))"

text \<open>
  Running a graph in which every node has one outgoing edge: follow the edge out of the
  current node, run the node it leads to, merge the node's update into the state, and stop
  at \<^verbatim>\<open>END\<close>. An exception in a node ends the run. The library bounds the number of steps
  (\<^verbatim>\<open>recursion_limit\<close>, 25 by default) and raises when the bound is hit with work left.
\<close>

definition recursion_limit :: nat where "recursion_limit = 25"

fun run_graph ::
  "nat \<Rightarrow> state_graph \<Rightarrow> string \<Rightarrow> rag_state \<Rightarrow> effect list
     \<Rightarrow> (error + rag_state) \<times> effect list" where
  "run_graph fuel g cur st eff =
     (case map_of (edges g) cur of
        None \<Rightarrow> (Inr st, eff)
      | Some nxt \<Rightarrow>
          if nxt = END then (Inr st, eff)
          else (case fuel of
                  0 \<Rightarrow> (Inl GraphRecursionError, eff)
                | Suc fuel' \<Rightarrow>
                    (case map_of (nodes g) nxt of
                       None \<Rightarrow> (Inl (KeyError nxt), eff)
                     | Some f \<Rightarrow>
                         (case f st eff of
                            (Inl err, eff') \<Rightarrow> (Inl err, eff')
                          | (Inr upd, eff') \<Rightarrow>
                              run_graph fuel' g nxt (apply_update st upd) eff'))))"

text \<open>
  What \<^verbatim>\<open>get_graph\<close> returns: the compiled graph, an object with an identity, closed over the
  retriever of one collection.
\<close>

record pipeline =
  pid :: nat
  pcollection :: string

definition ainvoke :: "env \<Rightarrow> pipeline \<Rightarrow> node_fn" where
  "ainvoke e p input eff = run_graph recursion_limit (rag_graph e (pcollection p)) START input eff"

section \<open>Pipeline cache: \<^verbatim>\<open>@lru_cache(maxsize=8)\<close> on \<^verbatim>\<open>get_graph\<close>\<close>

text \<open>
  The state of \<^verbatim>\<open>functools.lru_cache\<close>: the cached results from least to most recently used,
  and the hit and miss counters.
\<close>

record lru_cache =
  entries :: "(string \<times> pipeline) list"
  hits :: nat
  misses :: nat

text \<open>
  The process: the cache of \<^verbatim>\<open>get_graph\<close>, how many times the body of \<^verbatim>\<open>get_graph\<close> has run
  (which also numbers the objects it creates), and the effects so far.
\<close>

record world =
  cache :: lru_cache
  builds :: nat
  trace :: "effect list"

definition initial_world :: world where
  "initial_world = \<lparr>cache = \<lparr>entries = [], hits = 0, misses = 0\<rparr>, builds = 0, trace = []\<rparr>"

text \<open>The body of \<^verbatim>\<open>get_graph\<close>: it raises if a collaborator does, else compiles a new graph.\<close>

definition get_graph_body :: "env \<Rightarrow> string \<Rightarrow> nat \<Rightarrow> error + pipeline" where
  "get_graph_body e collection_name fresh =
     (case build_raises e collection_name of
        Some err \<Rightarrow> Inl err
      | None \<Rightarrow> Inr \<lparr>pid = fresh, pcollection = collection_name\<rparr>)"

text \<open>
  The wrapper \<^verbatim>\<open>lru_cache(maxsize)\<close> puts around a function of one positional argument. A hit
  moves the entry to the most recent end. A miss runs the body; an exception leaves the
  entries as they are; a result is stored, in place of the least recently used entry when
  the cache is full. With \<^verbatim>\<open>maxsize = 0\<close> nothing is stored.
\<close>

definition lru_call :: "nat \<Rightarrow> env \<Rightarrow> string \<Rightarrow> world \<Rightarrow> (error + pipeline) \<times> world" where
  "lru_call maxsize e key w =
     (let c = cache w in
      case (if maxsize = 0 then None else map_of (entries c) key) of
        Some p \<Rightarrow>
          (Inr p,
           w\<lparr>cache := c\<lparr>entries := filter (\<lambda>kv. fst kv \<noteq> key) (entries c) @ [(key, p)],
                         hits := hits c + 1\<rparr>\<rparr>)
      | None \<Rightarrow>
          (case get_graph_body e key (builds w) of
             Inl err \<Rightarrow>
               (Inl err, w\<lparr>cache := c\<lparr>misses := misses c + 1\<rparr>, builds := builds w + 1\<rparr>)
           | Inr p \<Rightarrow>
               (Inr p,
                w\<lparr>cache :=
                     c\<lparr>entries :=
                         (if maxsize = 0 then entries c
                          else if length (entries c) \<ge> maxsize then tl (entries c) @ [(key, p)]
                          else entries c @ [(key, p)]),
                       misses := misses c + 1\<rparr>,
                   builds := builds w + 1\<rparr>)))"

definition get_graph :: "env \<Rightarrow> string \<Rightarrow> world \<Rightarrow> (error + pipeline) \<times> world" where
  "get_graph = lru_call 8"

text \<open>The other two operations the wrapper offers.\<close>

definition cache_clear :: "world \<Rightarrow> world" where
  "cache_clear w = w\<lparr>cache := \<lparr>entries = [], hits = 0, misses = 0\<rparr>\<rparr>"

text \<open>\<^verbatim>\<open>cache_info()\<close>: hits, misses, maxsize, currsize.\<close>

definition cache_info :: "world \<Rightarrow> nat \<times> nat \<times> nat \<times> nat" where
  "cache_info w = (hits (cache w), misses (cache w), 8, length (entries (cache w)))"

text \<open>
  The whole interface of the wrapped \<^verbatim>\<open>get_graph\<close> that touches the cache: calling it,
  \<^verbatim>\<open>cache_info()\<close> and \<^verbatim>\<open>cache_clear()\<close>.
\<close>

datatype cache_op = Call string | CacheInfo | CacheClear

fun apply_cache_op :: "env \<Rightarrow> cache_op \<Rightarrow> world \<Rightarrow> world" where
  "apply_cache_op e (Call key) w = snd (get_graph e key w)"
| "apply_cache_op e CacheInfo w = w"
| "apply_cache_op e CacheClear w = cache_clear w"

fun run_cache_ops :: "env \<Rightarrow> cache_op list \<Rightarrow> world \<Rightarrow> world" where
  "run_cache_ops e [] w = w"
| "run_cache_ops e (op # ops) w = run_cache_ops e ops (apply_cache_op e op w)"

text \<open>The keys held by the cache, least recently used first.\<close>

definition cached_keys :: "world \<Rightarrow> string list" where
  "cached_keys w = map fst (entries (cache w))"

text \<open>Every cached pipeline was built for the key it is stored under.\<close>

definition cache_wf :: "world \<Rightarrow> bool" where
  "cache_wf w = list_all (\<lambda>kv. pcollection (snd kv) = fst kv) (entries (cache w))"

text \<open>
  A bookkeeping predicate for the proofs: the cache holds each key once, pipeline \<open>p\<close> is
  stored under \<open>k\<close>, and every key used more recently than \<open>k\<close> is in the set \<open>S\<close>.
\<close>

definition held_since :: "string \<Rightarrow> pipeline \<Rightarrow> string set \<Rightarrow> world \<Rightarrow> bool" where
  "held_since k p S w \<longleftrightarrow>
     distinct (cached_keys w) \<and>
     (\<exists>pre post. entries (cache w) = pre @ (k, p) # post \<and> fst ` set post \<subseteq> S)"

section \<open>HTTP handler (api.py)\<close>

text \<open>\<^verbatim>\<open>meta.get(key)\<close>: the value, or \<^verbatim>\<open>None\<close> for a missing key.\<close>

definition dict_get :: "(string \<rightharpoonup> pyval) \<Rightarrow> string \<Rightarrow> pyval" where
  "dict_get m k = (case m k of None \<Rightarrow> PyNone | Some v \<Rightarrow> v)"

text \<open>A source record is the dict literal of \<^verbatim>\<open>_format_sources\<close>, keys in the order written.\<close>

type_synonym source_record = "(string \<times> pyval) list"

fun format_sources_loop :: "document list \<Rightarrow> source_record list \<Rightarrow> source_record list" where
  "format_sources_loop [] sources = sources"
| "format_sources_loop (doc # rest) sources =
     (let meta = metadata_or_empty doc in
      format_sources_loop rest
        (sources @ [[(''source'', dict_get meta ''source''),
                     (''chunk'', dict_get meta ''chunk''),
                     (''id'', dict_get meta ''id'')]]))"

definition format_sources :: "document list \<Rightarrow> source_record list" where
  "format_sources ds = format_sources_loop ds []"

text \<open>
  \<^verbatim>\<open>ChatRequest\<close> and \<^verbatim>\<open>ChatResponse\<close>. The framework rejects an empty \<^verbatim>\<open>message\<close> before the
  handler runs; the handler itself does not look at the length.
\<close>

record chat_request =
  message :: string
  collection :: "string option"

record chat_response =
  resp_answer :: string
  resp_sources :: "source_record list"

text \<open>\<^verbatim>\<open>request.collection or DEFAULT_COLLECTION\<close>: \<^verbatim>\<open>None\<close> and the empty string give the default.\<close>

definition collection_of :: "env \<Rightarrow> chat_request \<Rightarrow> string" where
  "collection_of e request =
     (case collection request of
        None \<Rightarrow> default_collection e
      | Some c \<Rightarrow> if c = [] then default_collection e else c)"

definition chat :: "env \<Rightarrow> chat_request \<Rightarrow> world \<Rightarrow> (error + chat_response) \<times> world" where
  "chat e request w =
     (let coll = collection_of e request
      in case get_graph e coll w of
           (Inl err, w1) \<Rightarrow> (Inl err, w1)
         | (Inr graph, w1) \<Rightarrow>
             (case ainvoke e graph \<lparr>question = Some (message request), docs = None, answer = None\<rparr>
                     (trace w1) of
                (Inl err, eff) \<Rightarrow> (Inl err, w1\<lparr>trace := eff\<rparr>)
              | (Inr result, eff) \<Rightarrow>
                  (Inr \<lparr>resp_answer = (case answer result of None \<Rightarrow> '''' | Some a \<Rightarrow> a),
                        resp_sources =
                          format_sources (case docs result of None \<Rightarrow> [] | Some ds \<Rightarrow> ds)\<rparr>,
                   w1\<lparr>trace := eff\<rparr>)))"

section \<open>Sample inputs\<close>

text \<open>
  Two retrieved passages, the second without metadata, and collaborators that answer every
  call the same way: the given retrieval outcome and the given model stream.
\<close>

definition example_docs :: "document list" where
  "example_docs =
     [\<lparr>page_content = ''a'', metadata = Some [''source'' \<mapsto> PyStr ''f1'']\<rparr>,
      \<lparr>page_content = ''b'', metadata = None\<rparr>]"

definition example_env :: "error + document list \<Rightarrow> string list \<Rightarrow> error option \<Rightarrow> env" where
  "example_env retrieved chunks fin =
     \<lparr>default_collection = ''docs'',
      build_raises = (\<lambda>_. None),
      retriever_invoke = (\<lambda>_ _. retrieved),
      llm_astream = (\<lambda>_. (chunks, fin))\<rparr>"

text \<open>A cache holding two pipelines, and one filled to capacity, \<^verbatim>\<open>c1\<close> least recently used.\<close>

definition two_cached :: world where
  "two_cached = run_cache_ops (example_env (Inr []) [] None) [Call ''a'', Call ''b''] initial_world"

definition full_cache :: world where
  "full_cache =
     \<lparr>cache = \<lparr>entries = [(''c1'', \<lparr>pid = 0, pcollection = ''c1''\<rparr>),
                          (''c2'', \<lparr>pid = 1, pcollection = ''c2''\<rparr>),
                          (''c3'', \<lparr>pid = 2, pcollection = ''c3''\<rparr>),
                          (''c4'', \<lparr>pid = 3, pcollection = ''c4''\<rparr>),
                          (''c5'', \<lparr>pid = 4, pcollection = ''c5''\<rparr>),
                          (''c6'', \<lparr>pid = 5, pcollection = ''c6''\<rparr>),
                          (''c7'', \<lparr>pid = 6, pcollection = ''c7''\<rparr>),
                          (''c8'', \<lparr>pid = 7, pcollection = ''c8''\<rparr>)],
                hits = 0, misses = 8\<rparr>,
      builds = 8, trace = []\<rparr>"

section \<open>Auxiliary facts\<close>

declare run_graph.simps [simp del]
declare string_of_nat.simps [simp del]

lemma format_context_loop_eq:
  "format_context_loop idx ds chunks =
     chunks @ map (\<lambda>i. context_chunk (idx + i) (ds ! i)) [0..<length ds]"
proof (induction ds arbitrary: idx chunks)
  case Nil
  then show ?case by simp
next
  case (Cons d ds)
  have "map (\<lambda>i. context_chunk (idx + i) ((d # ds) ! i)) [0..<length (d # ds)] =
        context_chunk idx d # map (\<lambda>i. context_chunk (Suc idx + i) (ds ! i)) [0..<length ds]"
    by (simp add: map_upt_Suc del: upt_Suc)
  with Cons show ?case by simp
qed

lemma context_chunk_nonempty: "context_chunk idx doc \<noteq> []"
  by (simp add: context_chunk_def)

lemma join_str_nonempty: "xs \<noteq> [] \<Longrightarrow> hd xs \<noteq> [] \<Longrightarrow> join_str sep xs \<noteq> []"
  by (induction sep xs rule: join_str.induct) auto

lemma format_context_nonempty: "ds \<noteq> [] \<Longrightarrow> format_context ds \<noteq> []"
  by (cases ds)
    (simp_all add: format_context_def format_context_loop_eq join_str_nonempty
       context_chunk_nonempty map_upt_Suc del: upt_Suc)

lemma join_str_empty_sep: "join_str [] xs = concat xs"
  by (induction "[]::string" xs rule: join_str.induct) auto

lemma concat_filter_nonempty: "concat (filter (\<lambda>c. c \<noteq> []) xs) = concat xs"
  by (induction xs) auto

lemma generate_loop_eq:
  "generate_loop chunks fin parts eff =
     ((case fin of None \<Rightarrow> Inr (parts @ filter (\<lambda>c. c \<noteq> []) chunks) | Some err \<Rightarrow> Inl err),
      eff @ map (\<lambda>c. SinkWrite (StreamEvent ''token'' c)) (filter (\<lambda>c. c \<noteq> []) chunks))"
  by (induction chunks fin parts eff rule: generate_loop.induct) (auto split: option.splits)

lemma generate_eq:
  assumes "question st = Some q"
    and "llm_astream e [SystemMessage SYSTEM_PROMPT,
           HumanMessage (user_prompt q
             (format_context (case docs st of None \<Rightarrow> [] | Some ds \<Rightarrow> ds)))]
         = (chunks, fin)"
  shows "generate e st eff =
    ((case fin of
        None \<Rightarrow> Inr \<lparr>question = None, docs = None,
                     answer = Some (concat (filter (\<lambda>c. c \<noteq> []) chunks))\<rparr>
      | Some err \<Rightarrow> Inl err),
     eff @ [LLMStream [SystemMessage SYSTEM_PROMPT,
              HumanMessage (user_prompt q
                (format_context (case docs st of None \<Rightarrow> [] | Some ds \<Rightarrow> ds)))]]
       @ map (\<lambda>c. SinkWrite (StreamEvent ''token'' c)) (filter (\<lambda>c. c \<noteq> []) chunks))"
  using assms
  by (simp add: generate_def Let_def generate_loop_eq join_str_empty_sep split: option.splits)

lemma format_sources_loop_eq:
  "format_sources_loop ds sources =
     sources @ map (\<lambda>doc. [(''source'', dict_get (metadata_or_empty doc) ''source''),
                     (''chunk'', dict_get (metadata_or_empty doc) ''chunk''),
                     (''id'', dict_get (metadata_or_empty doc) ''id'')]) ds"
  by (induction ds arbitrary: sources) (auto simp: Let_def)

section \<open>Context Formatter\<close>

text \<open>
  C1, as the specification states it, fails: for the empty passage list \<^verbatim>\<open>_format_context\<close>
  returns the empty string, which is not the marker.
\<close>

theorem format_context_empty_counterexample:
  "format_context [] = '''' \<and> format_context [] \<noteq> ''[no context retrieved]''"
  by (simp add: format_context_def)

text \<open>
  C1, amended: for the empty passage list \<^verbatim>\<open>_format_context\<close> returns the empty string, and
  \<^verbatim>\<open>generate\<close> puts the fixed marker \<^verbatim>\<open>[no context retrieved]\<close> in its place when it builds the
  prompt: with no passages the model is sent exactly the question followed by the marker, and
  for no passage list is the context part of the prompt empty.
\<close>

theorem empty_context_marker_in_prompt:
  "format_context [] = ''''
   \<and> user_prompt q (format_context []) =
       ''Question: '' @ q @ [CHR 0x0A, CHR 0x0A] @ ''Context:'' @ [CHR 0x0A]
         @ ''[no context retrieved]''
   \<and> (\<exists>rest. snd (generate e \<lparr>question = Some q, docs = Some [], answer = None\<rparr> eff) =
         eff @ LLMStream [SystemMessage SYSTEM_PROMPT,
                 HumanMessage (''Question: '' @ q @ [CHR 0x0A, CHR 0x0A] @ ''Context:''
                   @ [CHR 0x0A] @ ''[no context retrieved]'')] # rest)
   \<and> (\<exists>ctx. ctx \<noteq> [] \<and>
         user_prompt q (format_context ds) =
           ''Question: '' @ q @ [CHR 0x0A, CHR 0x0A] @ ''Context:'' @ [CHR 0x0A] @ ctx)"
proof -
  have a: "format_context [] = ''''"
    by (simp add: format_context_def)
  have b: "user_prompt q (format_context []) =
       ''Question: '' @ q @ [CHR 0x0A, CHR 0x0A] @ ''Context:'' @ [CHR 0x0A]
         @ ''[no context retrieved]''"
    by (simp add: a user_prompt_def)
  obtain chunks fin where l:
    "llm_astream e [SystemMessage SYSTEM_PROMPT,
       HumanMessage (user_prompt q (format_context
         (case docs \<lparr>question = Some q, docs = Some [], answer = None\<rparr> of
            None \<Rightarrow> [] | Some ds \<Rightarrow> ds)))] = (chunks, fin)"
    by (cases "llm_astream e [SystemMessage SYSTEM_PROMPT,
       HumanMessage (user_prompt q (format_context
         (case docs \<lparr>question = Some q, docs = Some [], answer = None\<rparr> of
            None \<Rightarrow> [] | Some ds \<Rightarrow> ds)))]") blast
  have "snd (generate e \<lparr>question = Some q, docs = Some [], answer = None\<rparr> eff) =
          eff @ LLMStream [SystemMessage SYSTEM_PROMPT,
                  HumanMessage (user_prompt q (format_context []))]
            # map (\<lambda>c. SinkWrite (StreamEvent ''token'' c)) (filter (\<lambda>c. c \<noteq> []) chunks)"
    using generate_eq [OF _ l, of eff] by simp
  then have c: "\<exists>rest. snd (generate e \<lparr>question = Some q, docs = Some [], answer = None\<rparr> eff) =
         eff @ LLMStream [SystemMessage SYSTEM_PROMPT,
                 HumanMessage (''Question: '' @ q @ [CHR 0x0A, CHR 0x0A] @ ''Context:''
                   @ [CHR 0x0A] @ ''[no context retrieved]'')] # rest"
    unfolding b by blast
  have d: "\<exists>ctx. ctx \<noteq> [] \<and>
         user_prompt q (format_context ds) =
           ''Question: '' @ q @ [CHR 0x0A, CHR 0x0A] @ ''Context:'' @ [CHR 0x0A] @ ctx"
  proof (cases "format_context ds = []")
    case True
    then have "user_prompt q (format_context ds) =
           ''Question: '' @ q @ [CHR 0x0A, CHR 0x0A] @ ''Context:'' @ [CHR 0x0A]
             @ ''[no context retrieved]''"
      by (simp add: user_prompt_def)
    then show ?thesis by blast
  next
    case False
    then have "user_prompt q (format_context ds) =
           ''Question: '' @ q @ [CHR 0x0A, CHR 0x0A] @ ''Context:'' @ [CHR 0x0A]
             @ format_context ds"
      by (simp add: user_prompt_def)
    with False show ?thesis by blast
  qed
  from a b c d show ?thesis by blast
qed

text \<open>
  C2: for a non-empty passage list of length \<open>n\<close>, the output of \<^verbatim>\<open>_format_context\<close> is \<open>n\<close>
  blocks joined by a blank line, in input order; block \<open>i\<close> (counting from 1) is the citation
  index \<open>i\<close> in brackets, the passage's \<^verbatim>\<open>source\<close> metadata value (\<^verbatim>\<open>unknown\<close> when the key is
  absent), a line break, and the passage content.
\<close>

theorem format_context_blocks:
  assumes "ds \<noteq> []"
  shows "format_context ds =
           join_str [CHR 0x0A, CHR 0x0A]
             (map (\<lambda>i. ''['' @ string_of_nat (Suc i) @ ''] Source: ''
                        @ (case metadata_or_empty (ds ! i) ''source'' of
                             None \<Rightarrow> ''unknown'' | Some v \<Rightarrow> py_str v)
                        @ [CHR 0x0A] @ page_content (ds ! i))
                  [0..<length ds])
         \<and> length (map (\<lambda>i. ''['' @ string_of_nat (Suc i) @ ''] Source: ''
                        @ (case metadata_or_empty (ds ! i) ''source'' of
                             None \<Rightarrow> ''unknown'' | Some v \<Rightarrow> py_str v)
                        @ [CHR 0x0A] @ page_content (ds ! i))
                  [0..<length ds]) = length ds"
proof -
  have "context_chunk (1 + i) d =
          ''['' @ string_of_nat (Suc i) @ ''] Source: ''
            @ (case metadata_or_empty d ''source'' of None \<Rightarrow> ''unknown'' | Some v \<Rightarrow> py_str v)
            @ [CHR 0x0A] @ page_content d" for i d
    by (simp add: context_chunk_def source_of_def split: option.splits)
  with assms show ?thesis
    by (simp add: format_context_def format_context_loop_eq)
qed

theorem format_context_blocks_witness:
  "example_docs \<noteq> [] \<and>
   format_context example_docs =
     ''[1] Source: f1'' @ [CHR 0x0A] @ ''a'' @ [CHR 0x0A, CHR 0x0A]
       @ ''[2] Source: unknown'' @ [CHR 0x0A] @ ''b''"
  using format_context_blocks [of example_docs]
  by (simp add: example_docs_def metadata_or_empty_def digit_char_def string_of_nat.simps
        upt_rec [of 0] upt_rec [of 1] upt_rec [of 2])



section \<open>Generator\<close>

text \<open>
  C3: when the model's stream ends normally, the answer \<^verbatim>\<open>generate\<close> returns is the
  concatenation, in emission order, of the contents of the events it wrote to the sink (which
  is also the concatenation of all chunk contents); with zero chunks nothing is written, the
  answer is the empty string and no error is raised.
\<close>

theorem generate_answer_concat:
  assumes "question st = Some q"
    and "llm_astream e [SystemMessage SYSTEM_PROMPT,
           HumanMessage (user_prompt q
             (format_context (case docs st of None \<Rightarrow> [] | Some ds \<Rightarrow> ds)))]
         = (chunks, None)"
  shows "\<exists>evs. generate e st eff =
           (Inr \<lparr>question = None, docs = None, answer = Some (concat (map ev_content evs))\<rparr>,
            eff @ [LLMStream [SystemMessage SYSTEM_PROMPT,
                     HumanMessage (user_prompt q
                       (format_context (case docs st of None \<Rightarrow> [] | Some ds \<Rightarrow> ds)))]]
              @ map SinkWrite evs)
         \<and> concat (map ev_content evs) = concat chunks
         \<and> (chunks = [] \<longrightarrow> evs = [] \<and> fst (generate e st eff) =
               Inr \<lparr>question = None, docs = None, answer = Some ''''\<rparr>)"
proof -
  let ?evs = "map (StreamEvent ''token'') (filter (\<lambda>c. c \<noteq> []) chunks)"
  have 1: "map ev_content ?evs = filter (\<lambda>c. c \<noteq> []) chunks"
    by (simp add: comp_def)
  have 2: "map SinkWrite ?evs =
             map (\<lambda>c. SinkWrite (StreamEvent ''token'' c)) (filter (\<lambda>c. c \<noteq> []) chunks)"
    by (simp add: comp_def)
  have g: "generate e st eff =
           (Inr \<lparr>question = None, docs = None, answer = Some (concat (map ev_content ?evs))\<rparr>,
            eff @ [LLMStream [SystemMessage SYSTEM_PROMPT,
                     HumanMessage (user_prompt q
                       (format_context (case docs st of None \<Rightarrow> [] | Some ds \<Rightarrow> ds)))]]
              @ map SinkWrite ?evs)"
    unfolding 1 2 using generate_eq [OF assms, of eff] by simp
  have c: "concat (map ev_content ?evs) = concat chunks"
    unfolding 1 by (rule concat_filter_nonempty)
  have z: "chunks = [] \<longrightarrow> ?evs = [] \<and> fst (generate e st eff) =
               Inr \<lparr>question = None, docs = None, answer = Some ''''\<rparr>"
    using g by simp
  from g c z show ?thesis by blast
qed

theorem generate_answer_concat_witness:
  "question \<lparr>question = Some ''q'', docs = Some example_docs, answer = None\<rparr> = Some ''q''
   \<and> llm_astream (example_env (Inr example_docs) [''x'', '''', ''yz''] None)
        [SystemMessage SYSTEM_PROMPT,
         HumanMessage (user_prompt ''q'' (format_context example_docs))]
       = ([''x'', '''', ''yz''], None)
   \<and> fst (generate (example_env (Inr example_docs) [''x'', '''', ''yz''] None)
        \<lparr>question = Some ''q'', docs = Some example_docs, answer = None\<rparr> [])
       = Inr \<lparr>question = None, docs = None, answer = Some ''xyz''\<rparr>
   \<and> llm_astream (example_env (Inr example_docs) [] None)
        [SystemMessage SYSTEM_PROMPT,
         HumanMessage (user_prompt ''q'' (format_context example_docs))]
       = ([], None)
   \<and> fst (generate (example_env (Inr example_docs) [] None)
        \<lparr>question = Some ''q'', docs = Some example_docs, answer = None\<rparr> [])
       = Inr \<lparr>question = None, docs = None, answer = Some ''''\<rparr>"
  using
    generate_answer_concat [of "\<lparr>question = Some ''q'', docs = Some example_docs, answer = None\<rparr>"
      "''q''" "example_env (Inr example_docs) [''x'', '''', ''yz''] None" "[''x'', '''', ''yz'']" "[]"]
    generate_answer_concat [of "\<lparr>question = Some ''q'', docs = Some example_docs, answer = None\<rparr>"
      "''q''" "example_env (Inr example_docs) [] None" "[]" "[]"]
  by (auto simp: example_env_def)

text \<open>
  C10: \<^verbatim>\<open>generate\<close> writes a token event to the sink for exactly the chunks whose content is
  not empty, in order, and appends exactly those to \<^verbatim>\<open>parts\<close>; chunks with empty content
  reach neither the sink nor the answer. This holds however the stream ends.
\<close>

theorem generate_forwards_nonempty_chunks:
  assumes "question st = Some q"
    and "llm_astream e [SystemMessage SYSTEM_PROMPT,
           HumanMessage (user_prompt q
             (format_context (case docs st of None \<Rightarrow> [] | Some ds \<Rightarrow> ds)))]
         = (chunks, fin)"
  shows "snd (generate e st eff) =
           eff @ [LLMStream [SystemMessage SYSTEM_PROMPT,
                    HumanMessage (user_prompt q
                      (format_context (case docs st of None \<Rightarrow> [] | Some ds \<Rightarrow> ds)))]]
             @ map (\<lambda>c. SinkWrite (StreamEvent ''token'' c)) (filter (\<lambda>c. c \<noteq> []) chunks)
         \<and> fst (generate_loop chunks fin [] eff) =
             (case fin of None \<Rightarrow> Inr (filter (\<lambda>c. c \<noteq> []) chunks) | Some err \<Rightarrow> Inl err)
         \<and> fst (generate e st eff) =
             (case fin of
                None \<Rightarrow> Inr \<lparr>question = None, docs = None,
                             answer = Some (concat (filter (\<lambda>c. c \<noteq> []) chunks))\<rparr>
              | Some err \<Rightarrow> Inl err)"
  using generate_eq [OF assms, of eff] by (simp add: generate_loop_eq split: option.splits)

theorem generate_forwards_nonempty_chunks_witness:
  "question \<lparr>question = Some ''q'', docs = Some example_docs, answer = None\<rparr> = Some ''q''
   \<and> llm_astream (example_env (Inr example_docs) [''x'', '''', ''yz''] None)
        [SystemMessage SYSTEM_PROMPT,
         HumanMessage (user_prompt ''q'' (format_context example_docs))]
       = ([''x'', '''', ''yz''], None)
   \<and> snd (generate (example_env (Inr example_docs) [''x'', '''', ''yz''] None)
        \<lparr>question = Some ''q'', docs = Some example_docs, answer = None\<rparr> [])
       = [LLMStream [SystemMessage SYSTEM_PROMPT,
            HumanMessage (user_prompt ''q'' (format_context example_docs))],
          SinkWrite (StreamEvent ''token'' ''x''), SinkWrite (StreamEvent ''token'' ''yz'')]
   \<and> fst (generate_loop [''x'', '''', ''yz''] None [] []) = Inr [''x'', ''yz'']"
  using
    generate_forwards_nonempty_chunks
      [of "\<lparr>question = Some ''q'', docs = Some example_docs, answer = None\<rparr>"
      "''q''" "example_env (Inr example_docs) [''x'', '''', ''yz''] None" "[''x'', '''', ''yz'']" None "[]"]
  by (simp add: example_env_def)

section \<open>Source Extractor\<close>

text \<open>
  C8: \<^verbatim>\<open>_format_sources\<close> returns one record per passage, in the same order; each record
  has exactly the keys \<^verbatim>\<open>source\<close>, \<^verbatim>\<open>chunk\<close> and \<^verbatim>\<open>id\<close>, each holding the value the
  passage's own metadata has under that key, or \<^verbatim>\<open>None\<close> when the key is missing or the
  passage has no metadata at all. Other metadata keys are not copied.
\<close>

theorem format_sources_projection:
  "format_sources ds =
     map (\<lambda>doc. [(''source'', case metadata doc of None \<Rightarrow> PyNone
                             | Some m \<Rightarrow> (case m ''source'' of None \<Rightarrow> PyNone | Some v \<Rightarrow> v)),
                 (''chunk'', case metadata doc of None \<Rightarrow> PyNone
                             | Some m \<Rightarrow> (case m ''chunk'' of None \<Rightarrow> PyNone | Some v \<Rightarrow> v)),
                 (''id'', case metadata doc of None \<Rightarrow> PyNone
                             | Some m \<Rightarrow> (case m ''id'' of None \<Rightarrow> PyNone | Some v \<Rightarrow> v))]) ds
   \<and> length (format_sources ds) = length ds"
proof -
  have "dict_get (metadata_or_empty doc) key =
          (case metadata doc of None \<Rightarrow> PyNone
           | Some m \<Rightarrow> (case m key of None \<Rightarrow> PyNone | Some v \<Rightarrow> v))" for doc key
    by (simp add: dict_get_def metadata_or_empty_def split: option.splits)
  then show ?thesis
    by (simp add: format_sources_def format_sources_loop_eq)
qed

theorem format_sources_projection_witness:
  "format_sources
     [\<lparr>page_content = ''a'',
       metadata = Some [''source'' \<mapsto> PyStr ''f1'', ''chunk'' \<mapsto> PyInt 3, ''id'' \<mapsto> PyStr ''x1'',
                        ''page'' \<mapsto> PyInt 7]\<rparr>,
      \<lparr>page_content = ''b'', metadata = Some [''source'' \<mapsto> PyStr ''f2'']\<rparr>,
      \<lparr>page_content = ''c'', metadata = Some Map.empty\<rparr>,
      \<lparr>page_content = ''d'', metadata = None\<rparr>] =
     [[(''source'', PyStr ''f1''), (''chunk'', PyInt 3), (''id'', PyStr ''x1'')],
      [(''source'', PyStr ''f2''), (''chunk'', PyNone), (''id'', PyNone)],
      [(''source'', PyNone), (''chunk'', PyNone), (''id'', PyNone)],
      [(''source'', PyNone), (''chunk'', PyNone), (''id'', PyNone)]]"
  using format_sources_projection
    [of "[\<lparr>page_content = ''a'',
       metadata = Some [''source'' \<mapsto> PyStr ''f1'', ''chunk'' \<mapsto> PyInt 3, ''id'' \<mapsto> PyStr ''x1'',
                        ''page'' \<mapsto> PyInt 7]\<rparr>,
      \<lparr>page_content = ''b'', metadata = Some [''source'' \<mapsto> PyStr ''f2'']\<rparr>,
      \<lparr>page_content = ''c'', metadata = Some Map.empty\<rparr>,
      \<lparr>page_content = ''d'', metadata = None\<rparr>]"]
  by simp

section \<open>Controller: the compiled graph\<close>

lemma rag_graph_edges:
  "edges (rag_graph e c) = [(START, ''retrieve''), (''retrieve'', ''generate''), (''generate'', END)]"
  by (simp add: rag_graph_def add_edge_def add_node_def)

lemma rag_graph_nodes:
  "nodes (rag_graph e c) = [(''retrieve'', retrieve e c), (''generate'', generate e)]"
  by (simp add: rag_graph_def add_edge_def add_node_def)

lemma run_graph_at_generate:
  "run_graph fuel (rag_graph e c) ''generate'' st eff = (Inr st, eff)"
  by (subst run_graph.simps) (simp add: rag_graph_edges START_def END_def)

lemma run_graph_at_retrieve:
  "run_graph (Suc fuel) (rag_graph e c) ''retrieve'' st eff =
     (case generate e st eff of
        (Inl err, eff') \<Rightarrow> (Inl err, eff')
      | (Inr upd, eff') \<Rightarrow> (Inr (apply_update st upd), eff'))"
  by (subst run_graph.simps)
    (simp add: rag_graph_edges rag_graph_nodes START_def END_def run_graph_at_generate
       split: prod.splits sum.splits)

lemma run_graph_at_start:
  "run_graph (Suc (Suc fuel)) (rag_graph e c) START st eff =
     (case retrieve e c st eff of
        (Inl err, eff') \<Rightarrow> (Inl err, eff')
      | (Inr upd, eff') \<Rightarrow>
          (case generate e (apply_update st upd) eff' of
             (Inl err, eff'') \<Rightarrow> (Inl err, eff'')
           | (Inr upd', eff'') \<Rightarrow> (Inr (apply_update (apply_update st upd) upd'), eff'')))"
  by (subst run_graph.simps)
    (simp add: rag_graph_edges rag_graph_nodes START_def END_def run_graph_at_retrieve
       split: prod.splits sum.splits)

lemma ainvoke_eq:
  "ainvoke e p \<lparr>question = Some q, docs = None, answer = None\<rparr> eff =
     (case retriever_invoke e (pcollection p) q of
        Inl err \<Rightarrow> (Inl err, eff @ [RetrieverInvoke (pcollection p) q])
      | Inr ds \<Rightarrow>
          (case generate e \<lparr>question = Some q, docs = Some ds, answer = None\<rparr>
                  (eff @ [RetrieverInvoke (pcollection p) q]) of
             (Inl err, eff') \<Rightarrow> (Inl err, eff')
           | (Inr upd, eff') \<Rightarrow>
               (Inr (apply_update \<lparr>question = Some q, docs = Some ds, answer = None\<rparr> upd),
                eff')))"
proof -
  have "Suc (Suc 23) = recursion_limit"
    by (simp add: recursion_limit_def)
  then show ?thesis
    using run_graph_at_start
      [of 23 e "pcollection p" "\<lparr>question = Some q, docs = None, answer = None\<rparr>" eff]
    by (simp add: ainvoke_def retrieve_def apply_update_def split: sum.splits prod.splits)
qed


lemma ainvoke_retrieval_error:
  assumes "retriever_invoke e (pcollection p) q = Inl err"
  shows "ainvoke e p \<lparr>question = Some q, docs = None, answer = None\<rparr> eff =
           (Inl err, eff @ [RetrieverInvoke (pcollection p) q])"
  using assms by (simp add: ainvoke_eq)

lemma ainvoke_retrieved:
  assumes "retriever_invoke e (pcollection p) q = Inr ds"
    and "llm_astream e [SystemMessage SYSTEM_PROMPT,
           HumanMessage (user_prompt q (format_context ds))] = (chunks, fin)"
  shows "ainvoke e p \<lparr>question = Some q, docs = None, answer = None\<rparr> eff =
           ((case fin of
               None \<Rightarrow> Inr \<lparr>question = Some q, docs = Some ds,
                            answer = Some (concat (filter (\<lambda>c. c \<noteq> []) chunks))\<rparr>
             | Some err \<Rightarrow> Inl err),
            eff @ [RetrieverInvoke (pcollection p) q,
                   LLMStream [SystemMessage SYSTEM_PROMPT,
                     HumanMessage (user_prompt q (format_context ds))]]
              @ map (\<lambda>c. SinkWrite (StreamEvent ''token'' c)) (filter (\<lambda>c. c \<noteq> []) chunks))"
proof -
  have g: "generate e \<lparr>question = Some q, docs = Some ds, answer = None\<rparr>
             (eff @ [RetrieverInvoke (pcollection p) q]) =
    ((case fin of
        None \<Rightarrow> Inr \<lparr>question = None, docs = None,
                     answer = Some (concat (filter (\<lambda>c. c \<noteq> []) chunks))\<rparr>
      | Some err \<Rightarrow> Inl err),
     (eff @ [RetrieverInvoke (pcollection p) q]) @ [LLMStream [SystemMessage SYSTEM_PROMPT,
              HumanMessage (user_prompt q (format_context ds))]]
       @ map (\<lambda>c. SinkWrite (StreamEvent ''token'' c)) (filter (\<lambda>c. c \<noteq> []) chunks))"
    using assms(2)
      generate_eq [of "\<lparr>question = Some q, docs = Some ds, answer = None\<rparr>" q e chunks fin
        "eff @ [RetrieverInvoke (pcollection p) q]"]
    by simp
  show ?thesis
    by (simp add: ainvoke_eq assms(1) g apply_update_def split: option.splits)
qed

text \<open>
  C7: in one run of the graph the retriever is called first and once. If it raises, the run
  ends with that same exception and the model has not been called. If it returns passages,
  the model is called once, after the retriever call, with the prompt built from exactly
  those passages, and everything that follows is writes to the sink: no second retrieval and
  no second generation.
\<close>

theorem ainvoke_retrieve_before_generate:
  "(retriever_invoke e (pcollection p) q = Inl err \<longrightarrow>
      ainvoke e p \<lparr>question = Some q, docs = None, answer = None\<rparr> eff =
        (Inl err, eff @ [RetrieverInvoke (pcollection p) q]))
   \<and> (retriever_invoke e (pcollection p) q = Inr ds \<longrightarrow>
        (\<exists>tokens. snd (ainvoke e p \<lparr>question = Some q, docs = None, answer = None\<rparr> eff) =
           eff @ [RetrieverInvoke (pcollection p) q,
                  LLMStream [SystemMessage SYSTEM_PROMPT,
                    HumanMessage (user_prompt q (format_context ds))]]
             @ map SinkWrite tokens))"
proof (intro conjI impI)
  assume "retriever_invoke e (pcollection p) q = Inl err"
  then show "ainvoke e p \<lparr>question = Some q, docs = None, answer = None\<rparr> eff =
        (Inl err, eff @ [RetrieverInvoke (pcollection p) q])"
    by (rule ainvoke_retrieval_error)
next
  assume r: "retriever_invoke e (pcollection p) q = Inr ds"
  obtain chunks fin where l: "llm_astream e [SystemMessage SYSTEM_PROMPT,
           HumanMessage (user_prompt q (format_context ds))] = (chunks, fin)"
    by (cases "llm_astream e [SystemMessage SYSTEM_PROMPT,
           HumanMessage (user_prompt q (format_context ds))]") blast
  have "snd (ainvoke e p \<lparr>question = Some q, docs = None, answer = None\<rparr> eff) =
           eff @ [RetrieverInvoke (pcollection p) q,
                  LLMStream [SystemMessage SYSTEM_PROMPT,
                    HumanMessage (user_prompt q (format_context ds))]]
             @ map SinkWrite (map (StreamEvent ''token'') (filter (\<lambda>c. c \<noteq> []) chunks))"
    by (simp add: ainvoke_retrieved [OF r l] comp_def)
  then show "\<exists>tokens. snd (ainvoke e p \<lparr>question = Some q, docs = None, answer = None\<rparr> eff) =
           eff @ [RetrieverInvoke (pcollection p) q,
                  LLMStream [SystemMessage SYSTEM_PROMPT,
                    HumanMessage (user_prompt q (format_context ds))]]
             @ map SinkWrite tokens"
    by blast
qed

theorem ainvoke_retrieve_before_generate_witness:
  "retriever_invoke (example_env (Inl (Raised ''index unreachable'')) [''x''] None) ''docs'' ''q''
     = Inl (Raised ''index unreachable'')
   \<and> ainvoke (example_env (Inl (Raised ''index unreachable'')) [''x''] None)
        \<lparr>pid = 0, pcollection = ''docs''\<rparr>
        \<lparr>question = Some ''q'', docs = None, answer = None\<rparr> []
      = (Inl (Raised ''index unreachable''), [RetrieverInvoke ''docs'' ''q''])
   \<and> retriever_invoke (example_env (Inr example_docs) [''x''] None) ''docs'' ''q''
     = Inr example_docs
   \<and> snd (ainvoke (example_env (Inr example_docs) [''x''] None)
        \<lparr>pid = 0, pcollection = ''docs''\<rparr>
        \<lparr>question = Some ''q'', docs = None, answer = None\<rparr> [])
      = [RetrieverInvoke ''docs'' ''q'',
         LLMStream [SystemMessage SYSTEM_PROMPT,
           HumanMessage (user_prompt ''q'' (format_context example_docs))],
         SinkWrite (StreamEvent ''token'' ''x'')]"
proof -
  have a: "retriever_invoke (example_env (Inl (Raised ''index unreachable'')) [''x''] None)
             (pcollection \<lparr>pid = 0, pcollection = ''docs''\<rparr>) ''q''
           = Inl (Raised ''index unreachable'')"
    by (simp add: example_env_def)
  have b: "retriever_invoke (example_env (Inr example_docs) [''x''] None)
             (pcollection \<lparr>pid = 0, pcollection = ''docs''\<rparr>) ''q''
           = Inr example_docs"
    by (simp add: example_env_def)
  note t1 = ainvoke_retrieve_before_generate
      [of "example_env (Inl (Raised ''index unreachable'')) [''x''] None"
          "\<lparr>pid = 0, pcollection = ''docs''\<rparr>" "''q''" "Raised ''index unreachable''" "[]" "[]",
       THEN conjunct1, rule_format, OF a]
  note t2 = ainvoke_retrieve_before_generate
      [of "example_env (Inr example_docs) [''x''] None"
          "\<lparr>pid = 0, pcollection = ''docs''\<rparr>" "''q''" _ "[]" example_docs,
       THEN conjunct2, rule_format, OF b]
  have c: "snd (ainvoke (example_env (Inr example_docs) [''x''] None)
        \<lparr>pid = 0, pcollection = ''docs''\<rparr>
        \<lparr>question = Some ''q'', docs = None, answer = None\<rparr> [])
      = [RetrieverInvoke ''docs'' ''q'',
         LLMStream [SystemMessage SYSTEM_PROMPT,
           HumanMessage (user_prompt ''q'' (format_context example_docs))],
         SinkWrite (StreamEvent ''token'' ''x'')]"
    using t2 ainvoke_retrieved [OF b, of "[''x'']" None "[]"]
    by (simp add: example_env_def)
  from a b t1 c show ?thesis by simp
qed

section \<open>Pipeline cache: single calls\<close>

lemma get_graph_hit:
  assumes "map_of (entries (cache w)) k = Some p"
  shows "get_graph e k w =
          (Inr p, w\<lparr>cache := (cache w)\<lparr>entries := filter (\<lambda>kv. fst kv \<noteq> k) (entries (cache w)) @ [(k, p)],
                                      hits := hits (cache w) + 1\<rparr>\<rparr>)"
  using assms by (simp add: get_graph_def lru_call_def Let_def)

lemma get_graph_miss_built:
  assumes "map_of (entries (cache w)) k = None" and "build_raises e k = None"
  shows "get_graph e k w =
          (Inr \<lparr>pid = builds w, pcollection = k\<rparr>,
           w\<lparr>cache := (cache w)\<lparr>entries :=
                   (if length (entries (cache w)) \<ge> 8 then tl (entries (cache w)) else entries (cache w))
                     @ [(k, \<lparr>pid = builds w, pcollection = k\<rparr>)],
                 misses := misses (cache w) + 1\<rparr>,
             builds := builds w + 1\<rparr>)"
  using assms by (simp add: get_graph_def lru_call_def Let_def get_graph_body_def)

lemma get_graph_miss_raises:
  assumes "map_of (entries (cache w)) k = None" and "build_raises e k = Some err"
  shows "get_graph e k w =
          (Inl err, w\<lparr>cache := (cache w)\<lparr>misses := misses (cache w) + 1\<rparr>, builds := builds w + 1\<rparr>)"
  using assms by (simp add: get_graph_def lru_call_def Let_def get_graph_body_def)

lemma cache_wf_lookup:
  assumes "cache_wf w" and "map_of (entries (cache w)) k = Some p"
  shows "pcollection p = k"
proof -
  from assms(2) have "(k, p) \<in> set (entries (cache w))"
    by (rule map_of_SomeD)
  with assms(1) show ?thesis
    by (auto simp: cache_wf_def list_all_iff)
qed

lemma get_graph_returns:
  assumes "cache_wf w" and "build_raises e k = None"
  shows "\<exists>p w1. get_graph e k w = (Inr p, w1) \<and> pcollection p = k \<and> trace w1 = trace w"
proof (cases "map_of (entries (cache w)) k")
  case None
  then show ?thesis
    using get_graph_miss_built [OF None assms(2)] by simp
next
  case (Some p)
  then show ?thesis
    using get_graph_hit [OF Some, of e] cache_wf_lookup [OF assms(1) Some] by simp
qed

section \<open>Failure during generation\<close>

text \<open>
  C9: if the model's stream raises after some chunks, the request ends with that exception
  (\<^verbatim>\<open>chat\<close> returns no response, hence no answer field), and the events already written to
  the sink, one per non-empty chunk received before the failure, are all still in the trace,
  in order, after the retriever call and the model call.
\<close>

theorem chat_generation_failure:
  assumes "cache_wf w"
    and "build_raises e (collection_of e request) = None"
    and "retriever_invoke e (collection_of e request) (message request) = Inr ds"
    and "llm_astream e [SystemMessage SYSTEM_PROMPT,
           HumanMessage (user_prompt (message request) (format_context ds))] = (chunks, Some err)"
  shows "fst (chat e request w) = Inl err
       \<and> trace (snd (chat e request w)) =
           trace w @ [RetrieverInvoke (collection_of e request) (message request),
                      LLMStream [SystemMessage SYSTEM_PROMPT,
                        HumanMessage (user_prompt (message request) (format_context ds))]]
             @ map (\<lambda>c. SinkWrite (StreamEvent ''token'' c)) (filter (\<lambda>c. c \<noteq> []) chunks)"
proof -
  obtain p w1 where g: "get_graph e (collection_of e request) w = (Inr p, w1)"
    and pc: "pcollection p = collection_of e request" and tr: "trace w1 = trace w"
    using get_graph_returns [OF assms(1,2)] by blast
  have a: "ainvoke e p \<lparr>question = Some (message request), docs = None, answer = None\<rparr> (trace w1) =
     (Inl err,
      trace w @ [RetrieverInvoke (collection_of e request) (message request),
                      LLMStream [SystemMessage SYSTEM_PROMPT,
                        HumanMessage (user_prompt (message request) (format_context ds))]]
             @ map (\<lambda>c. SinkWrite (StreamEvent ''token'' c)) (filter (\<lambda>c. c \<noteq> []) chunks))"
    using ainvoke_retrieved [of e p "message request" ds chunks "Some err" "trace w1"] assms(3,4) pc tr
    by simp
  show ?thesis
    by (simp add: chat_def Let_def g a)
qed

theorem chat_generation_failure_witness:
  "cache_wf initial_world
   \<and> build_raises (example_env (Inr example_docs) [''t1'', ''t2'', ''t3''] (Some (Raised ''model failed'')))
       (collection_of (example_env (Inr example_docs) [''t1'', ''t2'', ''t3''] (Some (Raised ''model failed'')))
          \<lparr>message = ''q'', collection = None\<rparr>) = None
   \<and> retriever_invoke (example_env (Inr example_docs) [''t1'', ''t2'', ''t3''] (Some (Raised ''model failed'')))
        ''docs'' ''q'' = Inr example_docs
   \<and> llm_astream (example_env (Inr example_docs) [''t1'', ''t2'', ''t3''] (Some (Raised ''model failed'')))
        [SystemMessage SYSTEM_PROMPT, HumanMessage (user_prompt ''q'' (format_context example_docs))]
       = ([''t1'', ''t2'', ''t3''], Some (Raised ''model failed''))
   \<and> fst (chat (example_env (Inr example_docs) [''t1'', ''t2'', ''t3''] (Some (Raised ''model failed'')))
        \<lparr>message = ''q'', collection = None\<rparr> initial_world) = Inl (Raised ''model failed'')
   \<and> trace (snd (chat (example_env (Inr example_docs) [''t1'', ''t2'', ''t3''] (Some (Raised ''model failed'')))
        \<lparr>message = ''q'', collection = None\<rparr> initial_world)) =
       [RetrieverInvoke ''docs'' ''q'',
        LLMStream [SystemMessage SYSTEM_PROMPT,
          HumanMessage (user_prompt ''q'' (format_context example_docs))],
        SinkWrite (StreamEvent ''token'' ''t1''),
        SinkWrite (StreamEvent ''token'' ''t2''),
        SinkWrite (StreamEvent ''token'' ''t3'')]"
  using chat_generation_failure
    [of initial_world "example_env (Inr example_docs) [''t1'', ''t2'', ''t3''] (Some (Raised ''model failed''))"
        "\<lparr>message = ''q'', collection = None\<rparr>" example_docs "[''t1'', ''t2'', ''t3'']"
        "Raised ''model failed''"]
  by (simp add: example_env_def collection_of_def cache_wf_def initial_world_def)

section \<open>Pipeline cache: reuse\<close>

lemma map_of_filter_other:
  "k \<noteq> k' \<Longrightarrow> map_of (filter (\<lambda>kv. fst kv \<noteq> k') es) k = map_of es k"
  by (induction es) auto

lemma map_of_moved_to_end:
  "map_of (filter (\<lambda>kv. fst kv \<noteq> k) es @ [(k, p)]) k = Some p"
proof -
  have "map_of (filter (\<lambda>kv. fst kv \<noteq> k) es) k = None"
    by (induction es) auto
  then show ?thesis
    by (simp add: map_add_def)
qed

lemma map_of_tl_other:
  "fst (hd es) \<noteq> k \<Longrightarrow> map_of (tl es) k = map_of es k"
  by (cases es) auto

lemma map_of_snoc_other:
  "k \<noteq> k' \<Longrightarrow> map_of (es @ [(k', p')]) k = map_of es k"
  by (simp add: map_add_def split: option.splits)

lemma map_of_snoc_new:
  "map_of es k = None \<Longrightarrow> map_of (es @ [(k, p)]) k = Some p"
  by (simp add: map_add_def)

lemma map_of_tl_None:
  "map_of es k = None \<Longrightarrow> map_of (tl es) k = None"
  by (cases es) (auto split: if_splits)

lemma cached_iff: "k \<in> set (cached_keys w) \<longleftrightarrow> map_of (entries (cache w)) k \<noteq> None"
  by (simp add: cached_keys_def map_of_eq_None_iff)

lemma get_graph_cached_after:
  assumes "get_graph e k w = (Inr p, w1)"
  shows "map_of (entries (cache w1)) k = Some p"
    and "builds w1 = builds w + (if k \<in> set (cached_keys w) then 0 else 1)"
proof -
  show "map_of (entries (cache w1)) k = Some p"
  proof (cases "map_of (entries (cache w)) k")
    case None
    show ?thesis
    proof (cases "build_raises e k")
      case n: None
      from assms get_graph_miss_built [OF None n]
      show ?thesis
        by (auto simp: map_of_snoc_new map_of_tl_None None simp del: map_of_append)
    next
      case (Some err)
      from assms get_graph_miss_raises [OF None Some] show ?thesis by simp
    qed
  next
    case (Some p')
    from assms get_graph_hit [OF Some, of e] show ?thesis
      by (auto simp: map_of_moved_to_end simp del: map_of_append)
  qed
  show "builds w1 = builds w + (if k \<in> set (cached_keys w) then 0 else 1)"
  proof (cases "map_of (entries (cache w)) k")
    case None
    show ?thesis
    proof (cases "build_raises e k")
      case n: None
      from assms get_graph_miss_built [OF None n]
      show ?thesis
        by (auto simp: cached_iff None)
    next
      case (Some err)
      from assms get_graph_miss_raises [OF None Some] show ?thesis by simp
    qed
  next
    case (Some p')
    from assms get_graph_hit [OF Some, of e] show ?thesis
      by (auto simp: cached_iff Some)
  qed
qed

lemma get_graph_cached_reuse:
  assumes "map_of (entries (cache v)) k = Some p"
  shows "fst (get_graph e k v) = Inr p"
    and "builds (snd (get_graph e k v)) = builds v"
    and "map_of (entries (cache (snd (get_graph e k v)))) k = Some p"
  using get_graph_hit [OF assms, of e] by (simp_all add: map_of_moved_to_end del: map_of_append)

lemma get_graph_other_key:
  assumes c: "map_of (entries (cache v)) k = Some p" and ne: "k' \<noteq> k"
  shows "map_of (entries (cache (snd (get_graph e k' v)))) k = Some p
         \<or> (8 \<le> length (entries (cache v)) \<and> fst (hd (entries (cache v))) = k
            \<and> k' \<notin> set (cached_keys v) \<and> build_raises e k' = None)"
proof (cases "map_of (entries (cache v)) k'")
  case None
  show ?thesis
  proof (cases "build_raises e k'")
    case n: None
    show ?thesis
    proof (cases "8 \<le> length (entries (cache v)) \<and> fst (hd (entries (cache v))) = k")
      case True
      with None n show ?thesis by (simp add: cached_iff)
    next
      case False
      with ne c have "map_of (entries (cache (snd (get_graph e k' v)))) k = Some p"
        by (auto simp: get_graph_miss_built [OF None n] map_of_snoc_other map_of_tl_other
              simp del: map_of_append)
      then show ?thesis by simp
    qed
  next
    case (Some err)
    with c show ?thesis
      by (simp add: get_graph_miss_raises [OF None Some])
  qed
next
  case (Some p')
  with c ne show ?thesis
    by (simp add: get_graph_hit [OF Some] map_of_snoc_other map_of_filter_other
          del: map_of_append)
qed



section \<open>Pipeline cache: bound and eviction order\<close>

lemma run_cache_ops_append:
  "run_cache_ops e (xs @ ys) w = run_cache_ops e ys (run_cache_ops e xs w)"
  by (induction xs arbitrary: w) auto

lemma filter_fst_keys:
  "map fst (filter (\<lambda>kv. fst kv \<noteq> k) es) = filter (\<lambda>x. x \<noteq> k) (map fst es)"
  by (induction es) auto

lemma cached_keys_hit:
  assumes "map_of (entries (cache w)) k = Some p"
  shows "cached_keys (snd (get_graph e k w)) = filter (\<lambda>x. x \<noteq> k) (cached_keys w) @ [k]"
  by (simp add: get_graph_hit [OF assms] cached_keys_def filter_fst_keys)

lemma cached_keys_miss_built:
  assumes "map_of (entries (cache w)) k = None" and "build_raises e k = None"
  shows "cached_keys (snd (get_graph e k w)) =
           (if 8 \<le> length (cached_keys w) then tl (cached_keys w) else cached_keys w) @ [k]"
  by (simp add: get_graph_miss_built [OF assms] cached_keys_def map_tl)

lemma cached_keys_miss_raises:
  assumes "map_of (entries (cache w)) k = None" and "build_raises e k = Some err"
  shows "cached_keys (snd (get_graph e k w)) = cached_keys w"
  by (simp add: get_graph_miss_raises [OF assms] cached_keys_def)

lemma length_filter_keys_less:
  assumes "k \<in> set xs"
  shows "length (filter (\<lambda>x. x \<noteq> k) xs) < length xs"
  using assms by (intro length_filter_less [of k]) auto

lemma apply_cache_op_bounded:
  assumes "length (cached_keys w) \<le> 8"
  shows "length (cached_keys (apply_cache_op e op w)) \<le> 8"
proof (cases op)
  case (Call k)
  show ?thesis
  proof (cases "map_of (entries (cache w)) k")
    case None
    show ?thesis
    proof (cases "build_raises e k")
      case n: None
      with assms show ?thesis
        by (simp add: Call cached_keys_miss_built [OF None n])
    next
      case (Some err)
      with assms show ?thesis
        by (simp add: Call cached_keys_miss_raises [OF None Some])
    qed
  next
    case (Some p)
    then have "k \<in> set (cached_keys w)"
      by (simp add: cached_iff)
    from length_filter_keys_less [OF this] assms show ?thesis
      by (simp add: Call cached_keys_hit [OF Some])
  qed
next
  case CacheInfo
  with assms show ?thesis by simp
next
  case CacheClear
  then show ?thesis by (simp add: cache_clear_def cached_keys_def)
qed

lemma run_cache_ops_bounded:
  "length (cached_keys w) \<le> 8 \<Longrightarrow> length (cached_keys (run_cache_ops e ops w)) \<le> 8"
  by (induction ops arbitrary: w) (auto simp: apply_cache_op_bounded)

lemma remdups_snoc:
  "remdups (xs @ [k]) = filter (\<lambda>x. x \<noteq> k) (remdups xs) @ [k]"
  by (induction xs) auto

lemma drop_last_fits: "length xs \<le> n \<Longrightarrow> drop (length xs - n) xs = xs"
  by simp

lemma drop_last_append: "length ys = n \<Longrightarrow> drop (length (xs @ ys) - n) (xs @ ys) = ys"
  by simp


lemma length_filter_distinct:
  "distinct xs \<Longrightarrow> k \<in> set xs \<Longrightarrow> Suc (length (filter (\<lambda>x. x \<noteq> k) xs)) = length xs"
proof (induction xs)
  case Nil
  then show ?case by simp
next
  case (Cons x xs)
  show ?case
  proof (cases "x = k")
    case True
    with Cons.prems have "k \<notin> set xs" by simp
    then have "filter (\<lambda>x. x \<noteq> k) xs = xs"
      by (auto simp: filter_id_conv)
    with True show ?thesis by simp
  next
    case False
    with Cons show ?thesis by simp
  qed
qed

lemma lru_step_hit:
  assumes "distinct X" and "k \<in> set (drop (length X - n) X)"
  shows "drop (length (filter (\<lambda>x. x \<noteq> k) X @ [k]) - n) (filter (\<lambda>x. x \<noteq> k) X @ [k]) =
           filter (\<lambda>x. x \<noteq> k) (drop (length X - n) X) @ [k]"
proof -
  let ?A = "take (length X - n) X" and ?L = "drop (length X - n) X"
  have X: "X = ?A @ ?L" by simp
  from assms have "k \<notin> set ?A"
    by (metis X distinct_append disjoint_iff)
  then have fA: "filter (\<lambda>x. x \<noteq> k) ?A = ?A"
    by (auto simp: filter_id_conv)
  have fX: "filter (\<lambda>x. x \<noteq> k) X = ?A @ filter (\<lambda>x. x \<noteq> k) ?L"
    by (metis X fA filter_append)
  from assms(1) have dL: "distinct ?L" by simp
  have len: "length (filter (\<lambda>x. x \<noteq> k) ?L @ [k]) = length ?L"
    using length_filter_distinct [OF dL assms(2)] by simp
  show ?thesis
  proof (cases "length X \<le> n")
    case True
    then have "?A = []" by simp
    with fX True len show ?thesis by simp
  next
    case False
    then have "length ?L = n" by simp
    with len have "length (filter (\<lambda>x. x \<noteq> k) ?L @ [k]) = n" by simp
    from drop_last_append [OF this, of ?A] show ?thesis
      by (simp add: fX)
  qed
qed


lemma lru_step_miss:
  assumes "k \<notin> set (drop (length X - n) X)" and "0 < n"
  shows "drop (length (filter (\<lambda>x. x \<noteq> k) X @ [k]) - n) (filter (\<lambda>x. x \<noteq> k) X @ [k]) =
           (if n \<le> length (drop (length X - n) X) then tl (drop (length X - n) X)
            else drop (length X - n) X) @ [k]"
proof -
  let ?A = "take (length X - n) X" and ?L = "drop (length X - n) X"
  have X: "X = ?A @ ?L" by simp
  from assms(1) have fL: "filter (\<lambda>x. x \<noteq> k) ?L = ?L"
    by (auto simp: filter_id_conv)
  have fX: "filter (\<lambda>x. x \<noteq> k) X = filter (\<lambda>x. x \<noteq> k) ?A @ ?L"
    by (metis X fL filter_append)
  show ?thesis
  proof (cases "n \<le> length X")
    case True
    then have n: "length ?L = n" by simp
    with assms(2) obtain y ys where L: "?L = y # ys"
      by (cases ?L) auto
    with n assms(2) have "length (ys @ [k]) = n" by auto
    from drop_last_append [OF this, of "filter (\<lambda>x. x \<noteq> k) ?A @ [y]"]
    have "drop (length (filter (\<lambda>x. x \<noteq> k) X @ [k]) - n) (filter (\<lambda>x. x \<noteq> k) X @ [k]) = ys @ [k]"
      by (simp add: fX L)
    with n L show ?thesis by simp
  next
    case False
    then have "filter (\<lambda>x. x \<noteq> k) X = X"
      using fL by simp
    with False show ?thesis by simp
  qed
qed

lemma lru_cached_keys:
  "cached_keys (run_cache_ops e (map Call ks) initial_world) =
     drop (length (remdups (filter (\<lambda>k. build_raises e k = None) ks)) - 8)
       (remdups (filter (\<lambda>k. build_raises e k = None) ks))"
proof (induction ks rule: rev_induct)
  case Nil
  show ?case by (simp add: initial_world_def cached_keys_def)
next
  case (snoc k ks)
  let ?v = "run_cache_ops e (map Call ks) initial_world"
  let ?X = "remdups (filter (\<lambda>k. build_raises e k = None) ks)"
  have run: "run_cache_ops e (map Call (ks @ [k])) initial_world = snd (get_graph e k ?v)"
    by (simp add: run_cache_ops_append)
  have sub: "set (cached_keys ?v) \<subseteq> set ?X"
    unfolding snoc.IH by (rule set_drop_subset)
  show ?case
  proof (cases "build_raises e k")
    case (Some err)
    then have "k \<notin> set ?X" by simp
    with sub have "k \<notin> set (cached_keys ?v)" by blast
    then have m: "map_of (entries (cache ?v)) k = None"
      by (simp add: cached_iff)
    show ?thesis
      unfolding run cached_keys_miss_raises [OF m Some] snoc.IH using Some by simp
  next
    case None
    then have R: "remdups (filter (\<lambda>k. build_raises e k = None) (ks @ [k])) =
                    filter (\<lambda>x. x \<noteq> k) ?X @ [k]"
      by (simp add: remdups_snoc)
    show ?thesis
    proof (cases "map_of (entries (cache ?v)) k")
      case n: None
      then have "k \<notin> set (drop (length ?X - 8) ?X)"
        using cached_iff [of k ?v] by (simp add: snoc.IH)
      from lru_step_miss [OF this] show ?thesis
        unfolding run R cached_keys_miss_built [OF n None] snoc.IH by simp
    next
      case (Some p)
      then have "k \<in> set (drop (length ?X - 8) ?X)"
        using cached_iff [of k ?v] by (simp add: snoc.IH)
      from lru_step_hit [OF _ this] show ?thesis
        unfolding run R cached_keys_hit [OF Some] snoc.IH by simp
    qed
  qed
qed


lemma two_cached_eq:
  "two_cached =
     \<lparr>cache = \<lparr>entries = [(''a'', \<lparr>pid = 0, pcollection = ''a''\<rparr>), (''b'', \<lparr>pid = 1, pcollection = ''b''\<rparr>)],
                hits = 0, misses = 2\<rparr>,
      builds = 2, trace = []\<rparr>"
  by (simp add: two_cached_def get_graph_def lru_call_def get_graph_body_def example_env_def
        initial_world_def Let_def)

text \<open>
  C5, as the specification states it, fails on the invalidate operation: the wrapped
  function offers the call itself, \<^verbatim>\<open>cache_info()\<close> and \<^verbatim>\<open>cache_clear()\<close>, and none of them,
  applied to a cache holding \<^verbatim>\<open>a\<close> and \<^verbatim>\<open>b\<close>, removes \<^verbatim>\<open>a\<close> alone.
\<close>

theorem no_invalidate_counterexample:
  "cached_keys two_cached = [''a'', ''b'']
   \<and> \<not> (\<exists>op. cached_keys (apply_cache_op (example_env (Inr []) [] None) op two_cached) = [''b''])"
proof
  show "cached_keys two_cached = [''a'', ''b'']"
    by (simp add: two_cached_eq cached_keys_def)
  show "\<not> (\<exists>op. cached_keys (apply_cache_op (example_env (Inr []) [] None) op two_cached) = [''b''])"
  proof
    assume "\<exists>op. cached_keys (apply_cache_op (example_env (Inr []) [] None) op two_cached) = [''b'']"
    then obtain op where
      op: "cached_keys (apply_cache_op (example_env (Inr []) [] None) op two_cached) = [''b'']"
      by blast
    show False
    proof (cases op)
      case (Call k)
      with op show False
        by (simp add: two_cached_eq cached_keys_def get_graph_def lru_call_def get_graph_body_def
              example_env_def Let_def split: if_splits)
    next
      case CacheInfo
      with op show False
        by (simp add: two_cached_eq cached_keys_def)
    next
      case CacheClear
      with op show False
        by (simp add: cache_clear_def cached_keys_def)
    qed
  qed
qed

text \<open>
  C5, amended: the cache of \<^verbatim>\<open>get_graph\<close> never holds more than 8 pipelines, the capacity
  written in the decorator; after any sequence of calls from the empty cache it holds the
  (at most 8) most recently used keys whose construction succeeded, least recent first
  (\<open>remdups\<close> keeps the last occurrence of each key); a successful miss on a full cache drops
  the least recently used entry and stores the new one as most recent; and \<^verbatim>\<open>cache_clear()\<close>
  empties the cache. There is no operation that invalidates a single key.
\<close>

theorem pipeline_cache_bounded_lru:
  "length (cached_keys (run_cache_ops e ops initial_world)) \<le> 8
   \<and> cached_keys (run_cache_ops e (map Call ks) initial_world) =
       drop (length (remdups (filter (\<lambda>k. build_raises e k = None) ks)) - 8)
         (remdups (filter (\<lambda>k. build_raises e k = None) ks))
   \<and> (8 \<le> length (cached_keys w) \<and> k \<notin> set (cached_keys w) \<and> build_raises e k = None \<longrightarrow>
        cached_keys (snd (get_graph e k w)) = tl (cached_keys w) @ [k])
   \<and> cached_keys (cache_clear w) = []"
proof (intro conjI impI)
  show "length (cached_keys (run_cache_ops e ops initial_world)) \<le> 8"
    by (rule run_cache_ops_bounded) (simp add: initial_world_def cached_keys_def)
  show "cached_keys (run_cache_ops e (map Call ks) initial_world) =
       drop (length (remdups (filter (\<lambda>k. build_raises e k = None) ks)) - 8)
         (remdups (filter (\<lambda>k. build_raises e k = None) ks))"
    by (rule lru_cached_keys)
  show "cached_keys (cache_clear w) = []"
    by (simp add: cache_clear_def cached_keys_def)
next
  assume a: "8 \<le> length (cached_keys w) \<and> k \<notin> set (cached_keys w) \<and> build_raises e k = None"
  then have "map_of (entries (cache w)) k = None"
    by (simp add: cached_iff)
  from cached_keys_miss_built [OF this, of e] a
  show "cached_keys (snd (get_graph e k w)) = tl (cached_keys w) @ [k]"
    by simp
qed

theorem pipeline_cache_bounded_lru_witness:
  "8 \<le> length (cached_keys full_cache)
   \<and> ''c9'' \<notin> set (cached_keys full_cache)
   \<and> build_raises (example_env (Inr []) [] None) ''c9'' = None
   \<and> cached_keys (snd (get_graph (example_env (Inr []) [] None) ''c9'' full_cache)) =
       [''c2'', ''c3'', ''c4'', ''c5'', ''c6'', ''c7'', ''c8'', ''c9'']"
  using pipeline_cache_bounded_lru [of "example_env (Inr []) [] None" "[]" "[]" full_cache "''c9''"]
  by (simp add: full_cache_def cached_keys_def example_env_def)

section \<open>Pipeline cache: reuse across requests\<close>

lemma map_of_middle:
  "k \<notin> fst ` set pre \<Longrightarrow> map_of (pre @ (k, p) # post) k = Some p"
  by (induction pre) auto

lemma filter_keys_id:
  "k \<notin> fst ` set es \<Longrightarrow> filter (\<lambda>kv. fst kv \<noteq> k) es = es"
  by (induction es) auto

lemma held_since_lookup:
  assumes "held_since k p S w"
  shows "map_of (entries (cache w)) k = Some p"
proof -
  from assms obtain pre post where es: "entries (cache w) = pre @ (k, p) # post"
    and d: "distinct (cached_keys w)"
    by (auto simp: held_since_def)
  from d es have "k \<notin> fst ` set pre"
    by (auto simp: cached_keys_def)
  then show ?thesis
    by (simp add: es map_of_middle del: map_of_append)
qed

lemma distinct_after_call:
  assumes "distinct (cached_keys w)"
  shows "distinct (cached_keys (snd (get_graph e k w)))"
proof (cases "map_of (entries (cache w)) k")
  case None
  then have nin: "k \<notin> set (cached_keys w)"
    by (simp add: cached_iff)
  show ?thesis
  proof (cases "build_raises e k")
    case n: None
    from nin have "k \<notin> set (tl (cached_keys w))"
      by (cases "cached_keys w") auto
    with assms nin show ?thesis
      by (simp add: cached_keys_miss_built [OF None n] distinct_tl)
  next
    case (Some err)
    with assms show ?thesis
      by (simp add: cached_keys_miss_raises [OF None Some])
  qed
next
  case (Some p)
  with assms show ?thesis
    by (simp add: cached_keys_hit [OF Some])
qed

lemma held_since_same_key:
  assumes "held_since k p S w"
  shows "held_since k p S (snd (get_graph e k w))"
proof -
  from assms obtain pre post where es: "entries (cache w) = pre @ (k, p) # post"
    and d: "distinct (cached_keys w)"
    by (auto simp: held_since_def)
  note l = held_since_lookup [OF assms]
  have "entries (cache (snd (get_graph e k w))) = (pre @ post) @ (k, p) # []"
    using d es
    by (auto simp: get_graph_hit [OF l] cached_keys_def filter_keys_id)
  then have "\<exists>pre' post'. entries (cache (snd (get_graph e k w))) = pre' @ (k, p) # post'
                \<and> fst ` set post' \<subseteq> S"
    by (metis empty_subsetI image_empty list.set(1))
  with distinct_after_call [OF d] show ?thesis
    by (simp add: held_since_def)
qed

lemma held_since_other_key:
  assumes h: "held_since k p S w" and ne: "k' \<noteq> k"
    and fin: "finite S" and c: "card (insert k' S) < 8"
  shows "held_since k p (insert k' S) (snd (get_graph e k' w))"
proof -
  from h obtain pre post where es: "entries (cache w) = pre @ (k, p) # post"
    and sub: "fst ` set post \<subseteq> S" and d: "distinct (cached_keys w)"
    by (auto simp: held_since_def)
  have "\<exists>pre' post'. entries (cache (snd (get_graph e k' w))) = pre' @ (k, p) # post'
          \<and> fst ` set post' \<subseteq> insert k' S"
  proof (cases "map_of (entries (cache w)) k'")
    case (Some p')
    have "entries (cache (snd (get_graph e k' w))) =
            filter (\<lambda>kv. fst kv \<noteq> k') pre @ (k, p) # (filter (\<lambda>kv. fst kv \<noteq> k') post @ [(k', p')])"
      using ne by (simp add: get_graph_hit [OF Some] es)
    moreover have "fst ` set (filter (\<lambda>kv. fst kv \<noteq> k') post @ [(k', p')]) \<subseteq> insert k' S"
      using sub by auto
    ultimately show ?thesis by blast
  next
    case None
    then have nin: "k' \<notin> set (cached_keys w)"
      by (simp add: cached_iff)
    show ?thesis
    proof (cases "build_raises e k'")
      case (Some err)
      have "entries (cache (snd (get_graph e k' w))) = pre @ (k, p) # post"
        by (simp add: get_graph_miss_raises [OF None Some] es)
      with sub show ?thesis by blast
    next
      case n: None
      show ?thesis
      proof (cases "8 \<le> length (entries (cache w))")
        case False
        then have "entries (cache (snd (get_graph e k' w))) =
                     pre @ (k, p) # (post @ [(k', \<lparr>pid = builds w, pcollection = k'\<rparr>)])"
          by (simp add: get_graph_miss_built [OF None n] es)
        moreover have "fst ` set (post @ [(k', \<lparr>pid = builds w, pcollection = k'\<rparr>)]) \<subseteq> insert k' S"
          using sub by auto
        ultimately show ?thesis by blast
      next
        case True
        have "pre \<noteq> []"
        proof
          assume "pre = []"
          with True es have len: "7 \<le> length post" by simp
          from d es have dp: "distinct (map fst post)"
            by (simp add: cached_keys_def)
          from nin es have "k' \<notin> set (map fst post)"
            by (simp add: cached_keys_def)
          moreover have "card (set (map fst post)) = length (map fst post)"
            using dp by (rule distinct_card)
          ultimately have "card (insert k' (set (map fst post))) = Suc (length post)"
            by (simp del: set_map)
          moreover have "insert k' (set (map fst post)) \<subseteq> insert k' S"
            using sub by auto
          then have "card (insert k' (set (map fst post))) \<le> card (insert k' S)"
            using fin by (intro card_mono) auto
          ultimately show False
            using len c by simp
        qed
        then obtain x pre' where pre: "pre = x # pre'"
          by (cases pre) auto
        with True have "entries (cache (snd (get_graph e k' w))) =
                     pre' @ (k, p) # (post @ [(k', \<lparr>pid = builds w, pcollection = k'\<rparr>)])"
          by (simp add: get_graph_miss_built [OF None n] es)
        moreover have "fst ` set (post @ [(k', \<lparr>pid = builds w, pcollection = k'\<rparr>)]) \<subseteq> insert k' S"
          using sub by auto
        ultimately show ?thesis by blast
      qed
    qed
  qed
  with distinct_after_call [OF d] show ?thesis
    by (simp add: held_since_def)
qed

lemma held_since_calls:
  assumes "held_since k p S w" and "finite S" and "card (S \<union> (set ks - {k})) < 8"
  shows "held_since k p (S \<union> (set ks - {k})) (run_cache_ops e (map Call ks) w)"
  using assms
proof (induction ks arbitrary: S w)
  case Nil
  then show ?case by simp
next
  case (Cons k' ks)
  show ?case
  proof (cases "k' = k")
    case True
    have eq: "S \<union> (set (k' # ks) - {k}) = S \<union> (set ks - {k})"
      using True by auto
    from Cons.prems have h: "held_since k p S (snd (get_graph e k w))"
      by (simp add: held_since_same_key)
    from Cons.IH [OF h Cons.prems(2)] Cons.prems(3) show ?thesis
      unfolding eq using True by simp
  next
    case False
    have eq: "S \<union> (set (k' # ks) - {k}) = insert k' S \<union> (set ks - {k})"
      using False by auto
    have fin: "finite (S \<union> (set (k' # ks) - {k}))"
      using Cons.prems(2) by simp
    have "card (insert k' S) \<le> card (S \<union> (set (k' # ks) - {k}))"
      using False by (intro card_mono [OF fin]) auto
    with Cons.prems(3) have c: "card (insert k' S) < 8" by simp
    from held_since_other_key [OF Cons.prems(1) False Cons.prems(2) c]
    have h: "held_since k p (insert k' S) (snd (get_graph e k' w))" .
    have "card (insert k' S \<union> (set ks - {k})) < 8"
      using Cons.prems(3) unfolding eq .
    from Cons.IH [OF h _ this] Cons.prems(2) show ?thesis
      unfolding eq by simp
  qed
qed

lemma held_since_after_call:
  assumes "distinct (cached_keys w)" and "get_graph e k w = (Inr p, w1)"
  shows "held_since k p {} w1"
proof -
  from distinct_after_call [OF assms(1), of e k] assms(2)
  have d: "distinct (cached_keys w1)" by simp
  have "\<exists>pre. entries (cache w1) = pre @ [(k, p)]"
  proof (cases "map_of (entries (cache w)) k")
    case None
    show ?thesis
    proof (cases "build_raises e k")
      case n: None
      from assms(2) show ?thesis
        unfolding get_graph_miss_built [OF None n] by auto
    next
      case (Some err)
      from assms(2) show ?thesis
        unfolding get_graph_miss_raises [OF None Some] by simp
    qed
  next
    case (Some p')
    from assms(2) show ?thesis
      unfolding get_graph_hit [OF Some] by auto
  qed
  with d show ?thesis
    by (auto simp: held_since_def)
qed

lemma reuse_across_calls:
  assumes "distinct (cached_keys w)" and "get_graph e k w = (Inr p, w1)"
    and "card (set ks - {k}) < 8"
  shows "fst (get_graph e' k (run_cache_ops e' (map Call ks) w1)) = Inr p"
    and "builds (snd (get_graph e' k (run_cache_ops e' (map Call ks) w1))) =
           builds (run_cache_ops e' (map Call ks) w1)"
proof -
  from held_since_calls [OF held_since_after_call [OF assms(1,2)], of ks e'] assms(3)
  have "held_since k p ({} \<union> (set ks - {k})) (run_cache_ops e' (map Call ks) w1)"
    by simp
  then have l: "map_of (entries (cache (run_cache_ops e' (map Call ks) w1))) k = Some p"
    by (rule held_since_lookup)
  show "fst (get_graph e' k (run_cache_ops e' (map Call ks) w1)) = Inr p"
    by (rule get_graph_cached_reuse(1) [OF l])
  show "builds (snd (get_graph e' k (run_cache_ops e' (map Call ks) w1))) =
           builds (run_cache_ops e' (map Call ks) w1)"
    by (rule get_graph_cached_reuse(2) [OF l])
qed

text \<open>
  C4: two calls of \<^verbatim>\<open>get_graph\<close> in a row with the same key return the same pipeline object,
  and the second call constructs nothing; the two calls together construct exactly one
  pipeline when the key was not cached before, and none when it was. More generally, while a
  key is in the cache a call with it returns the stored pipeline without constructing, and a
  call with another key leaves the entry in place unless that call is a miss on a full cache
  whose least recently used entry is this key (the eviction). In particular, after a call
  with the key has returned, any sequence of calls that names fewer than 8 other keys leaves
  the pipeline in place, and the next call with the key returns the same object and constructs
  nothing.
\<close>

theorem get_graph_reuses_pipeline:
  "(get_graph e k w = (Inr p, w1) \<longrightarrow>
       fst (get_graph e' k w1) = Inr p
     \<and> builds (snd (get_graph e' k w1)) = builds w1
     \<and> builds w1 = builds w + (if k \<in> set (cached_keys w) then 0 else 1))
   \<and> (map_of (entries (cache v)) k = Some p \<longrightarrow>
       fst (get_graph e k v) = Inr p
     \<and> builds (snd (get_graph e k v)) = builds v
     \<and> map_of (entries (cache (snd (get_graph e k v)))) k = Some p)
   \<and> (map_of (entries (cache v)) k = Some p \<and> k' \<noteq> k \<longrightarrow>
       map_of (entries (cache (snd (get_graph e k' v)))) k = Some p
       \<or> (8 \<le> length (entries (cache v)) \<and> fst (hd (entries (cache v))) = k
          \<and> k' \<notin> set (cached_keys v) \<and> build_raises e k' = None))
   \<and> (distinct (cached_keys w) \<and> get_graph e k w = (Inr p, w1) \<and> card (set ks - {k}) < 8 \<longrightarrow>
       fst (get_graph e' k (run_cache_ops e' (map Call ks) w1)) = Inr p
     \<and> builds (snd (get_graph e' k (run_cache_ops e' (map Call ks) w1))) =
         builds (run_cache_ops e' (map Call ks) w1))"
proof (intro conjI impI)
  assume g: "get_graph e k w = (Inr p, w1)"
  note c = get_graph_cached_after(1) [OF g]
  show "fst (get_graph e' k w1) = Inr p"
    by (rule get_graph_cached_reuse(1) [OF c])
  show "builds (snd (get_graph e' k w1)) = builds w1"
    by (rule get_graph_cached_reuse(2) [OF c])
  show "builds w1 = builds w + (if k \<in> set (cached_keys w) then 0 else 1)"
    by (rule get_graph_cached_after(2) [OF g])
next
  assume c: "map_of (entries (cache v)) k = Some p"
  show "fst (get_graph e k v) = Inr p"
    by (rule get_graph_cached_reuse(1) [OF c])
  show "builds (snd (get_graph e k v)) = builds v"
    by (rule get_graph_cached_reuse(2) [OF c])
  show "map_of (entries (cache (snd (get_graph e k v)))) k = Some p"
    by (rule get_graph_cached_reuse(3) [OF c])
next
  assume "map_of (entries (cache v)) k = Some p \<and> k' \<noteq> k"
  then show "map_of (entries (cache (snd (get_graph e k' v)))) k = Some p
       \<or> (8 \<le> length (entries (cache v)) \<and> fst (hd (entries (cache v))) = k
          \<and> k' \<notin> set (cached_keys v) \<and> build_raises e k' = None)"
    using get_graph_other_key [of v k p k' e] by blast
next
  assume a: "distinct (cached_keys w) \<and> get_graph e k w = (Inr p, w1) \<and> card (set ks - {k}) < 8"
  then show "fst (get_graph e' k (run_cache_ops e' (map Call ks) w1)) = Inr p"
    using reuse_across_calls(1) [of w e k p w1 ks e'] by blast
  from a show "builds (snd (get_graph e' k (run_cache_ops e' (map Call ks) w1))) =
         builds (run_cache_ops e' (map Call ks) w1)"
    using reuse_across_calls(2) [of w e k p w1 ks e'] by blast
qed

theorem get_graph_reuses_pipeline_witness:
  "get_graph (example_env (Inr []) [] None) ''docs'' initial_world =
     (Inr \<lparr>pid = 0, pcollection = ''docs''\<rparr>,
      \<lparr>cache = \<lparr>entries = [(''docs'', \<lparr>pid = 0, pcollection = ''docs''\<rparr>)], hits = 0, misses = 1\<rparr>,
       builds = 1, trace = []\<rparr>)
   \<and> fst (get_graph (example_env (Inr []) [] None) ''docs''
        \<lparr>cache = \<lparr>entries = [(''docs'', \<lparr>pid = 0, pcollection = ''docs''\<rparr>)], hits = 0, misses = 1\<rparr>,
         builds = 1, trace = []\<rparr>) = Inr \<lparr>pid = 0, pcollection = ''docs''\<rparr>
   \<and> builds (snd (get_graph (example_env (Inr []) [] None) ''docs''
        \<lparr>cache = \<lparr>entries = [(''docs'', \<lparr>pid = 0, pcollection = ''docs''\<rparr>)], hits = 0, misses = 1\<rparr>,
         builds = 1, trace = []\<rparr>)) = 1
   \<and> map_of (entries (cache
        \<lparr>cache = \<lparr>entries = [(''docs'', \<lparr>pid = 0, pcollection = ''docs''\<rparr>)], hits = 0, misses = 1\<rparr>,
         builds = 1, trace = []\<rparr>)) ''docs'' = Some \<lparr>pid = 0, pcollection = ''docs''\<rparr>
   \<and> ''notes'' \<noteq> ''docs''
   \<and> map_of (entries (cache (snd (get_graph (example_env (Inr []) [] None) ''notes''
        \<lparr>cache = \<lparr>entries = [(''docs'', \<lparr>pid = 0, pcollection = ''docs''\<rparr>)], hits = 0, misses = 1\<rparr>,
         builds = 1, trace = []\<rparr>)))) ''docs'' = Some \<lparr>pid = 0, pcollection = ''docs''\<rparr>
   \<and> distinct (cached_keys initial_world)
   \<and> card (set [''notes''] - {''docs''}) < 8
   \<and> fst (get_graph (example_env (Inr []) [] None) ''docs''
        (run_cache_ops (example_env (Inr []) [] None) (map Call [''notes''])
          \<lparr>cache = \<lparr>entries = [(''docs'', \<lparr>pid = 0, pcollection = ''docs''\<rparr>)], hits = 0, misses = 1\<rparr>,
           builds = 1, trace = []\<rparr>)) = Inr \<lparr>pid = 0, pcollection = ''docs''\<rparr>"
  using get_graph_reuses_pipeline
    [of "example_env (Inr []) [] None" "''docs''" initial_world "\<lparr>pid = 0, pcollection = ''docs''\<rparr>"
        "\<lparr>cache = \<lparr>entries = [(''docs'', \<lparr>pid = 0, pcollection = ''docs''\<rparr>)], hits = 0, misses = 1\<rparr>,
         builds = 1, trace = []\<rparr>"
        "example_env (Inr []) [] None"
        "\<lparr>cache = \<lparr>entries = [(''docs'', \<lparr>pid = 0, pcollection = ''docs''\<rparr>)], hits = 0, misses = 1\<rparr>,
         builds = 1, trace = []\<rparr>"
        "''notes''" "[''notes'']"]
  by (simp add: get_graph_def lru_call_def get_graph_body_def example_env_def initial_world_def
        cached_keys_def Let_def)

end
